theory Spec2Isabelle
  imports Main "HOL-Library.Sublist"
begin

section \<open>JavaScript strings\<close>

text \<open>
  A JavaScript string is a sequence of UTF-16 code units; \<open>length\<close>, \<open>substring\<close>,
  \<open>split\<close> and the regular expressions of the sources all count code units. A string is
  therefore a list of code units, each a natural number; \<open>ascii\<close> embeds an ASCII literal.
\<close>

type_synonym jsstring = "nat list"

definition ascii :: "string \<Rightarrow> jsstring" where
  "ascii s = map of_char s"

text \<open>
  \<open>String.prototype.toLowerCase\<close> applies the Unicode case mapping, which belongs to the
  JavaScript engine and not to this program: it has tables of its own, may change the
  length of a string and looks at the neighbours of some letters. On a string of ASCII code
  units it sends \<open>A\<close>..\<open>Z\<close> (65..90) to \<open>a\<close>..\<open>z\<close> and leaves the rest. What it returns
  for a string with a code unit outside ASCII is a parameter, \<open>unicodeLower\<close>, of which
  nothing is assumed.
\<close>

type_synonym case_mapping = "jsstring \<Rightarrow> jsstring"

definition lowerUnit :: "nat \<Rightarrow> nat" where
  "lowerUnit c = (if 65 \<le> c \<and> c \<le> 90 then c + 32 else c)"

definition isAscii :: "jsstring \<Rightarrow> bool" where
  "isAscii s = list_all (\<lambda>c. c < 128) s"

definition toLowerCase :: "case_mapping \<Rightarrow> jsstring \<Rightarrow> jsstring" where
  "toLowerCase unicodeLower s = (if isAscii s then map lowerUnit s else unicodeLower s)"

definition startsWith :: "jsstring \<Rightarrow> jsstring \<Rightarrow> bool" where
  \<comment> \<open>\<open>s.startsWith(p)\<close>\<close>
  "startsWith s p = prefix p s"

text \<open>
  The line terminators of ECMAScript, which \<open>.\<close> in a regular expression without the
  \<open>s\<close> flag does not match: LF, CR, U+2028 and U+2029.
\<close>

definition isLineTerminator :: "nat \<Rightarrow> bool" where
  "isLineTerminator c = (c = 10 \<or> c = 13 \<or> c = 8232 \<or> c = 8233)"

section \<open>URL normalisation and tab lookup (chrome-extension/background.js)\<close>

text \<open>
  The four \<open>replace\<close> calls of \<open>normalizeURL\<close>. None of the regular expressions has the
  \<open>g\<close> flag, so each call removes at most one match, the leftmost.
\<close>

definition replaceProtocol :: "jsstring \<Rightarrow> jsstring" where
  \<comment> \<open>\<open>s.replace(/^https?:\/\//, '')\<close>\<close>
  "replaceProtocol s =
     (if startsWith s (ascii ''https://'') then drop 8 s
      else if startsWith s (ascii ''http://'') then drop 7 s
      else s)"

definition replaceWww :: "jsstring \<Rightarrow> jsstring" where
  \<comment> \<open>\<open>s.replace(/^www\./, '')\<close>\<close>
  "replaceWww s = (if startsWith s (ascii ''www.'') then drop 4 s else s)"

definition replaceTrailingSlash :: "jsstring \<Rightarrow> jsstring" where
  \<comment> \<open>\<open>s.replace(/\/$/, '')\<close>: without the \<open>m\<close> flag, \<open>$\<close> is the end of the input\<close>
  "replaceTrailingSlash s = (if s \<noteq> [] \<and> last s = 47 then butlast s else s)"

fun replaceFragment :: "jsstring \<Rightarrow> jsstring" where
  \<comment> \<open>\<open>s.replace(/#.*$/, '')\<close>: the leftmost \<open>#\<close> from which no line terminator
      occurs up to the end of the input, and everything after it\<close>
  "replaceFragment [] = []"
| "replaceFragment (c # cs) =
     (if c = 35 \<and> list_all (\<lambda>x. \<not> isLineTerminator x) cs then []
      else c # replaceFragment cs)"

definition normalizeURL :: "case_mapping \<Rightarrow> jsstring \<Rightarrow> jsstring" where
  "normalizeURL unicodeLower url =
     (if url = [] then []
      else replaceFragment (replaceTrailingSlash (replaceWww (replaceProtocol
             (toLowerCase unicodeLower url)))))"

text \<open>
  The target of a lookup is \<open>message.url\<close>, which may be absent; \<open>!url\<close> is then true
  and the normalised target is the empty string.
\<close>

definition normalizeURL_opt :: "case_mapping \<Rightarrow> jsstring option \<Rightarrow> jsstring" where
  "normalizeURL_opt unicodeLower url =
     (case url of None \<Rightarrow> [] | Some u \<Rightarrow> normalizeURL unicodeLower u)"

text \<open>A tab as the browser reports it, and the descriptor \<open>getAllTabs\<close> makes of it.\<close>

record chrome_tab =
  ct_id :: nat
  ct_windowId :: nat
  ct_url :: "jsstring option"
  ct_title :: "jsstring option"
  ct_active :: bool
  ct_favIconUrl :: "jsstring option"

record tab =
  tab_id :: nat
  tab_windowId :: nat
  tab_url :: jsstring
  tab_title :: jsstring
  tab_active :: bool
  tab_favIconUrl :: jsstring

definition orEmpty :: "jsstring option \<Rightarrow> jsstring" where
  \<comment> \<open>\<open>x || ''\<close> for a string or \<open>undefined\<close>\<close>
  "orEmpty x = (case x of None \<Rightarrow> [] | Some s \<Rightarrow> s)"

definition getAllTabs :: "chrome_tab list \<Rightarrow> tab list" where
  "getAllTabs tabs =
     map (\<lambda>t. \<lparr>tab_id = ct_id t, tab_windowId = ct_windowId t, tab_url = orEmpty (ct_url t),
               tab_title = orEmpty (ct_title t), tab_active = ct_active t,
               tab_favIconUrl = orEmpty (ct_favIconUrl t)\<rparr>) tabs"

fun findTabLoop :: "case_mapping \<Rightarrow> jsstring \<Rightarrow> tab list \<Rightarrow> tab option" where
  \<comment> \<open>the \<open>for (const tab of tabs)\<close> loop of \<open>findTabByURL\<close>\<close>
  "findTabLoop unicodeLower normalizedTarget [] = None"
| "findTabLoop unicodeLower normalizedTarget (t # ts) =
     (let normalizedTab = normalizeURL unicodeLower (tab_url t) in
      if normalizedTab = normalizedTarget then Some t
      else if startsWith normalizedTab normalizedTarget \<or> startsWith normalizedTarget normalizedTab
      then Some t
      else findTabLoop unicodeLower normalizedTarget ts)"

definition findTabByURL :: "case_mapping \<Rightarrow> tab list \<Rightarrow> jsstring option \<Rightarrow> tab option" where
  \<comment> \<open>\<open>tabs\<close> is what \<open>await getAllTabs()\<close> returned\<close>
  "findTabByURL unicodeLower tabs targetURL =
     findTabLoop unicodeLower (normalizeURL_opt unicodeLower targetURL) tabs"

section \<open>Request handling in the browser extension (chrome-extension/background.js)\<close>

text \<open>
  The envelope exchanged between plugin and extension is a JSON object; a field that is
  not set is \<open>None\<close>. The \<open>action\<close> tag and the \<open>url\<close> are strings where present, the
  \<open>id\<close> is the integer the plugin allocated. A result is the string \<open>'pong'\<close> or the
  object built by \<open>activateTab\<close>, \<open>openURL\<close> and \<open>switchToURL\<close>.
\<close>

record op_result =
  r_success :: bool
  r_error :: "jsstring option"
  r_tabId :: "nat option"
  r_action :: "jsstring option"
  r_tab :: "tab option"

datatype result_value = ResultString jsstring | ResultObject op_result

record envelope =
  e_id :: "nat option"
  e_action :: "jsstring option"
  e_url :: "jsstring option"
  e_tabId :: "nat option"
  e_windowId :: "nat option"
  e_tabs :: "tab list option"
  e_result :: "result_value option"
  e_error :: "jsstring option"

text \<open>
  The browser is outside the program. What it answers is a parameter: the tab list of
  \<open>chrome.tabs.query\<close> (\<open>None\<close> when the call rejects), for \<open>chrome.tabs.update\<close> and
  \<open>chrome.windows.update\<close> the message of the error they reject with (\<open>None\<close> when they
  succeed), for \<open>chrome.tabs.create\<close> the error message or the id of the new tab, and the
  Unicode case mapping of its JavaScript engine.
\<close>

record browser =
  unicode_lower :: case_mapping
  tabs_query :: "chrome_tab list option"
  tabs_update :: "nat option \<Rightarrow> jsstring option"
  windows_update :: "nat option \<Rightarrow> jsstring option"
  tabs_create :: "jsstring option \<Rightarrow> jsstring + nat"

definition failure :: "jsstring \<Rightarrow> op_result" where
  \<comment> \<open>\<open>{ success: false, error: error.message }\<close>\<close>
  "failure msg = \<lparr>r_success = False, r_error = Some msg, r_tabId = None, r_action = None,
                   r_tab = None\<rparr>"

definition activateTab :: "browser \<Rightarrow> nat option \<Rightarrow> nat option \<Rightarrow> op_result" where
  "activateTab b tabId windowId =
     (case tabs_update b tabId of
        Some msg \<Rightarrow> failure msg
      | None \<Rightarrow>
          (case windows_update b windowId of
             Some msg \<Rightarrow> failure msg
           | None \<Rightarrow> \<lparr>r_success = True, r_error = None, r_tabId = None, r_action = None,
                        r_tab = None\<rparr>))"

definition openURL :: "browser \<Rightarrow> jsstring option \<Rightarrow> op_result" where
  "openURL b url =
     (case tabs_create b url of
        Inl msg \<Rightarrow> failure msg
      | Inr new_id \<Rightarrow> \<lparr>r_success = True, r_error = None, r_tabId = Some new_id, r_action = None,
                        r_tab = None\<rparr>)"

definition switchToURL :: "browser \<Rightarrow> jsstring option \<Rightarrow> op_result option" where
  \<comment> \<open>\<open>None\<close>: the exception of a rejected \<open>chrome.tabs.query\<close> leaves the function\<close>
  "switchToURL b url =
     (case tabs_query b of
        None \<Rightarrow> None
      | Some raw \<Rightarrow>
          (case findTabByURL (unicode_lower b) (getAllTabs raw) url of
             Some existingTab \<Rightarrow>
               Some ((activateTab b (Some (tab_id existingTab)) (Some (tab_windowId existingTab)))
                      \<lparr>r_action := Some (ascii ''activated''), r_tab := Some existingTab\<rparr>)
           | None \<Rightarrow> Some ((openURL b url)\<lparr>r_action := Some (ascii ''opened'')\<rparr>)))"

definition emptyEnvelope :: envelope where
  "emptyEnvelope = \<lparr>e_id = None, e_action = None, e_url = None, e_tabId = None,
     e_windowId = None, e_tabs = None, e_result = None, e_error = None\<rparr>"

definition actionText :: "jsstring option \<Rightarrow> jsstring" where
  \<comment> \<open>what string concatenation makes of \<open>message.action\<close>\<close>
  "actionText a = (case a of None \<Rightarrow> ascii ''undefined'' | Some t \<Rightarrow> t)"

definition pluginResponse :: "browser \<Rightarrow> envelope \<Rightarrow> envelope option" where
  \<comment> \<open>the \<open>response\<close> object of \<open>handlePluginMessage\<close> when it reaches \<open>sendToPlugin\<close>;
      \<open>None\<close> when an exception leaves the function before that\<close>
  "pluginResponse b message =
     (let response = emptyEnvelope\<lparr>e_id := e_id message\<rparr> in
      if e_action message = Some (ascii ''getTabs'') then
        (case tabs_query b of
           None \<Rightarrow> None
         | Some raw \<Rightarrow> Some (response\<lparr>e_tabs := Some (getAllTabs raw)\<rparr>))
      else if e_action message = Some (ascii ''switchToURL'') then
        (case switchToURL b (e_url message) of
           None \<Rightarrow> None
         | Some r \<Rightarrow> Some (response\<lparr>e_result := Some (ResultObject r)\<rparr>))
      else if e_action message = Some (ascii ''activateTab'') then
        Some (response\<lparr>e_result :=
          Some (ResultObject (activateTab b (e_tabId message) (e_windowId message)))\<rparr>)
      else if e_action message = Some (ascii ''ping'') then
        Some (response\<lparr>e_result := Some (ResultString (ascii ''pong''))\<rparr>)
      else
        Some (response\<lparr>e_error :=
          Some (ascii ''Unknown action: '' @ actionText (e_action message))\<rparr>))"

definition sendToPlugin :: "bool \<Rightarrow> envelope \<Rightarrow> envelope list" where
  \<comment> \<open>the messages written to the websocket; \<open>websocket_open\<close> is
      \<open>websocket && websocket.readyState === WebSocket.OPEN\<close>\<close>
  "sendToPlugin websocket_open message = (if websocket_open then [message] else [])"

definition handlePluginMessage :: "bool \<Rightarrow> browser \<Rightarrow> envelope \<Rightarrow> envelope list" where
  "handlePluginMessage websocket_open b message =
     (case pluginResponse b message of
        None \<Rightarrow> []
      | Some response \<Rightarrow> sendToPlugin websocket_open response)"

section \<open>Button display (streamdeck-plugin, URLSwitcherPlugin)\<close>

record settings =
  s_url :: "jsstring option"
  s_title :: "jsstring option"

fun split :: "nat \<Rightarrow> jsstring \<Rightarrow> jsstring list" where
  \<comment> \<open>\<open>s.split(sep)\<close> for a separator of one code unit; the result is never empty\<close>
  "split sep [] = [[]]"
| "split sep (c # cs) =
     (if c = sep then [] # split sep cs
      else (case split sep cs of
              [] \<Rightarrow> [[c]]
            | piece # pieces \<Rightarrow> (c # piece) # pieces))"

definition firstPiece :: "jsstring list \<Rightarrow> jsstring" where
  \<comment> \<open>\<open>pieces[0]\<close> of a \<open>split\<close> result\<close>
  "firstPiece pieces = (case pieces of [] \<Rightarrow> [] | piece # _ \<Rightarrow> piece)"

definition getURLSnippet :: "jsstring option \<Rightarrow> jsstring" where
  "getURLSnippet url =
     (case url of
        None \<Rightarrow> []
      | Some u \<Rightarrow>
          if u = [] then []
          else
            (let display = replaceProtocol u;
                 display = replaceWww display;
                 display = firstPiece (split 47 display)
             in if length display > 12 then take 10 display @ [8230] else display))"

datatype sd_call = SetTitle jsstring jsstring | SetState jsstring nat

definition disconnectedTitle :: jsstring where
  \<comment> \<open>U+26A0 U+FE0F, a line feed, \<open>No Browser\<close>\<close>
  "disconnectedTitle = [9888, 65039, 10] @ ascii ''No Browser''"

definition titleOr :: "jsstring option \<Rightarrow> jsstring \<Rightarrow> jsstring" where
  \<comment> \<open>\<open>title || other\<close>: an absent or empty title is falsy\<close>
  "titleOr title other = (case title of None \<Rightarrow> other | Some t \<Rightarrow> if t = [] then other else t)"

definition updateButtonState :: "(jsstring \<rightharpoonup> settings) \<Rightarrow> jsstring \<Rightarrow> bool \<Rightarrow> sd_call list" where
  \<comment> \<open>the \<open>setTitle\<close> and \<open>setState\<close> calls issued, in order\<close>
  "updateButtonState actionSettings context connected =
     (let settings = (case actionSettings context of
                        None \<Rightarrow> \<lparr>s_url = None, s_title = None\<rparr>
                      | Some st \<Rightarrow> st)
      in if connected then
           [SetTitle context (titleOr (s_title settings) (getURLSnippet (s_url settings))),
            SetState context 0]
         else [SetTitle context disconnectedTitle, SetState context 0])"

text \<open>
  The display mapping in the specification's words, to compare \<open>getURLSnippet\<close> with: strip
  the protocol and \<open>www.\<close>, take what comes before the first \<open>/\<close>, and cut a string of
  more than 12 code units to its first 10 followed by an ellipsis (U+2026).
\<close>

definition stripPrefix :: "jsstring \<Rightarrow> jsstring \<Rightarrow> jsstring" where
  "stripPrefix p s = (if prefix p s then drop (length p) s else s)"

definition spec_snippet :: "jsstring \<Rightarrow> jsstring" where
  "spec_snippet url =
     (let host = takeWhile (\<lambda>c. c \<noteq> 47)
                   (stripPrefix (ascii ''www.'')
                     (if prefix (ascii ''https://'') url then stripPrefix (ascii ''https://'') url
                      else stripPrefix (ascii ''http://'') url))
      in if 12 < length host then take 10 host @ [8230] else host)"

section \<open>The extension server of the plugin (streamdeck-plugin, ExtensionServer)\<close>

text \<open>
  The server object has the fields \<open>wss\<close> (whether a listening server exists),
  \<open>extensionSocket\<close> (the socket of the connected extension, by identity),
  \<open>pendingRequests\<close>, \<open>requestId\<close>, \<open>started\<close> and \<open>onConnectionChange\<close> (whether a
  callback is installed). Around it, the state keeps what the code reads and writes outside
  the object: the \<open>readyState\<close> of every socket, the \<open>setTimeout\<close> closures that have not
  fired yet (each holds its request id and the \<open>reject\<close> of its promise), the number of
  promises \<open>sendToExtension\<close> has created, and the trace of observable calls: \<open>resolve\<close>
  and \<open>reject\<close> of a promise, \<open>send\<close> on a socket, and the connection callback.
  Promises are numbered in creation order. Writing the log file is not modelled.
\<close>

datatype ready_state = CONNECTING | OPEN | CLOSING | CLOSED

record pending =
  p_promise :: nat
  p_timestamp :: int

datatype effect =
    Resolve nat envelope
  | Reject nat jsstring
  | SocketSend nat envelope
  | ConnectionChange bool

record server =
  wss :: bool
  extensionSocket :: "nat option"
  pendingRequests :: "nat \<rightharpoonup> pending"
  requestId :: nat
  started :: bool
  onConnectionChange :: bool
  readyState :: "nat \<Rightarrow> ready_state"
  timers :: "(nat \<times> nat) list"
  promises :: nat
  effects :: "effect list"

definition newServer :: server where
  \<comment> \<open>the constructor; no socket exists yet\<close>
  "newServer = \<lparr>wss = False, extensionSocket = None, pendingRequests = Map.empty, requestId = 0,
     started = False, onConnectionChange = False, readyState = (\<lambda>_. CONNECTING), timers = [],
     promises = 0, effects = []\<rparr>"

text \<open>
  \<open>++this.requestId\<close> on a JavaScript number: exact up to \<open>2^53\<close>, where adding one
  rounds back to \<open>2^53\<close>. A counter that starts at 0 never leaves this range.
\<close>

definition increment :: "nat \<Rightarrow> nat" where
  "increment n = (if n < 9007199254740992 then n + 1 else n)"

definition isConnected :: "server \<Rightarrow> bool" where
  "isConnected s =
     (case extensionSocket s of None \<Rightarrow> False | Some ws \<Rightarrow> readyState s ws = OPEN)"

definition notify :: "bool \<Rightarrow> server \<Rightarrow> server" where
  \<comment> \<open>\<open>if (this.onConnectionChange) this.onConnectionChange(connected)\<close>\<close>
  "notify connected s =
     (if onConnectionChange s then s\<lparr>effects := effects s @ [ConnectionChange connected]\<rparr> else s)"

definition start :: "bool \<Rightarrow> server \<Rightarrow> server" where
  \<comment> \<open>\<open>constructor_throws\<close>: whether \<open>new WebSocket.Server\<close> throws; the handlers
      registered on the new server are \<open>onConnection\<close>, \<open>onMessage\<close> and \<open>onClose\<close>\<close>
  "start constructor_throws s =
     (if started s then s
      else if constructor_throws then s
      else s\<lparr>wss := True, started := True\<rparr>)"

definition onConnection :: "nat \<Rightarrow> server \<Rightarrow> server" where
  \<comment> \<open>the \<open>connection\<close> handler; \<open>close()\<close> on the previous socket makes it \<open>CLOSING\<close>\<close>
  "onConnection ws s =
     (let s1 = (case extensionSocket s of
                  None \<Rightarrow> s
                | Some previous \<Rightarrow>
                    if readyState s previous = OPEN
                    then s\<lparr>readyState := (readyState s)(previous := CLOSING)\<rparr>
                    else s)
      in notify True (s1\<lparr>extensionSocket := Some ws\<rparr>))"

definition onClose :: "nat \<Rightarrow> server \<Rightarrow> server" where
  \<comment> \<open>the \<open>close\<close> handler of socket \<open>ws\<close>\<close>
  "onClose ws s =
     (if extensionSocket s = Some ws then notify False (s\<lparr>extensionSocket := None\<rparr>) else s)"

definition socketSend :: "envelope \<Rightarrow> server \<Rightarrow> effect list" where
  \<comment> \<open>\<open>this.extensionSocket.send(JSON.stringify(message))\<close>, called when \<open>isConnected\<close>\<close>
  "socketSend message s =
     (case extensionSocket s of None \<Rightarrow> [] | Some ws \<Rightarrow> [SocketSend ws message])"

definition sendRawToExtension :: "envelope \<Rightarrow> server \<Rightarrow> server" where
  "sendRawToExtension message s =
     (if isConnected s then s\<lparr>effects := effects s @ socketSend message s\<rparr> else s)"

definition handleExtensionMessage :: "envelope \<Rightarrow> server \<Rightarrow> server" where
  \<comment> \<open>an empty \<open>error\<close> string is falsy, as an absent one is\<close>
  "handleExtensionMessage message s =
     (if e_action message = Some (ascii ''ping'')
      then sendRawToExtension (emptyEnvelope\<lparr>e_action := Some (ascii ''pong'')\<rparr>) s
      else
        (case e_id message of
           None \<Rightarrow> s
         | Some i \<Rightarrow>
             (case pendingRequests s i of
                None \<Rightarrow> s
              | Some pending \<Rightarrow>
                  (let s1 = s\<lparr>pendingRequests := (pendingRequests s)(i := None)\<rparr> in
                   case e_error message of
                     None \<Rightarrow> s1\<lparr>effects := effects s @ [Resolve (p_promise pending) message]\<rparr>
                   | Some err \<Rightarrow>
                       if err = []
                       then s1\<lparr>effects := effects s @ [Resolve (p_promise pending) message]\<rparr>
                       else s1\<lparr>effects := effects s @ [Reject (p_promise pending) err]\<rparr>))))"

definition onMessage :: "envelope option \<Rightarrow> server \<Rightarrow> server" where
  \<comment> \<open>the \<open>message\<close> handler of a socket; \<open>None\<close>: \<open>JSON.parse\<close> throws, which is caught\<close>
  "onMessage data s = (case data of None \<Rightarrow> s | Some message \<Rightarrow> handleExtensionMessage message s)"

definition sendToExtension :: "int \<Rightarrow> jsstring \<Rightarrow> jsstring option \<Rightarrow> server \<Rightarrow> server" where
  \<comment> \<open>\<open>now\<close> is \<open>Date.now()\<close>; \<open>data\<close> is \<open>{ url }\<close>, as at the only call\<close>
  "sendToExtension now action url s =
     (let promise = promises s;
          s0 = s\<lparr>promises := promise + 1\<rparr>
      in if \<not> isConnected s
         then s0\<lparr>effects := effects s @ [Reject promise (ascii ''Chrome extension not connected'')]\<rparr>
         else
           (let i = increment (requestId s);
                message = emptyEnvelope\<lparr>e_id := Some i, e_action := Some action, e_url := url\<rparr>
            in s0\<lparr>requestId := i,
                   pendingRequests :=
                     (pendingRequests s)(i \<mapsto> \<lparr>p_promise = promise, p_timestamp = now\<rparr>),
                   effects := effects s @ socketSend message s,
                   timers := timers s @ [(i, promise)]\<rparr>))"

definition timeoutFires :: "nat \<Rightarrow> server \<Rightarrow> server" where
  \<comment> \<open>the \<open>n\<close>-th outstanding \<open>setTimeout\<close> closure runs, 10 seconds after its request\<close>
  "timeoutFires n s =
     (if n < length (timers s) then
        (let (i, promise) = timers s ! n;
             s1 = s\<lparr>timers := take n (timers s) @ drop (Suc n) (timers s)\<rparr>
         in if pendingRequests s i \<noteq> None
            then s1\<lparr>pendingRequests := (pendingRequests s)(i := None),
                    effects := effects s @ [Reject promise (ascii ''Request timeout'')]\<rparr>
            else s1)
      else s)"

text \<open>
  Everything that can happen to the server: the plugin installs the callback and calls
  \<open>start\<close>; a socket connects (and is \<open>OPEN\<close>), delivers a message, stops being open, or
  closes (and is \<open>CLOSED\<close> when its handler runs); a caller sends a request; a timer fires.
\<close>

datatype event =
    InstallCallback
  | Start bool
  | Connection nat
  | Message "envelope option"
  | Lost nat
  | Close nat
  | SendToExtension int jsstring "jsstring option"
  | TimeoutFires nat

fun step :: "event \<Rightarrow> server \<Rightarrow> server" where
  "step InstallCallback s = s\<lparr>onConnectionChange := True\<rparr>"
| "step (Start constructor_throws) s = start constructor_throws s"
| "step (Connection ws) s =
     (if wss s then onConnection ws (s\<lparr>readyState := (readyState s)(ws := OPEN)\<rparr>) else s)"
| "step (Message data) s = onMessage data s"
| "step (Lost ws) s =
     (if readyState s ws = OPEN then s\<lparr>readyState := (readyState s)(ws := CLOSING)\<rparr> else s)"
| "step (Close ws) s = onClose ws (s\<lparr>readyState := (readyState s)(ws := CLOSED)\<rparr>)"
| "step (SendToExtension now action url) s = sendToExtension now action url s"
| "step (TimeoutFires n) s = timeoutFires n s"

fun run :: "event list \<Rightarrow> server \<Rightarrow> server" where
  "run [] s = s"
| "run (e # es) s = run es (step e s)"

text \<open>
  How often the trace settles a promise, and whether a promise is the continuation of an
  entry of the table.
\<close>

fun settles :: "nat \<Rightarrow> effect \<Rightarrow> bool" where
  "settles p (Resolve q _) = (q = p)"
| "settles p (Reject q _) = (q = p)"
| "settles p (SocketSend _ _) = False"
| "settles p (ConnectionChange _) = False"

definition settled_count :: "nat \<Rightarrow> server \<Rightarrow> nat" where
  "settled_count p s = length (filter (settles p) (effects s))"

definition waiting :: "nat \<Rightarrow> server \<Rightarrow> bool" where
  "waiting p s = (\<exists>i pending. pendingRequests s i = Some pending \<and> p_promise pending = p)"

text \<open>
  The invariant of the table: every entry has an id that was allocated, a promise that was
  created, and its timer still outstanding; a timer belongs to the entry of its id, if
  there is one; no promise has two timers; and every promise created so far has been
  settled once, unless it still waits in the table, and then not at all.
\<close>

definition broker_inv :: "server \<Rightarrow> bool" where
  "broker_inv s =
     ((\<forall>i pending. pendingRequests s i = Some pending \<longrightarrow>
          i \<le> requestId s \<and> p_promise pending < promises s \<and> (i, p_promise pending) \<in> set (timers s))
      \<and> (\<forall>i p. (i, p) \<in> set (timers s) \<longrightarrow>
          i \<le> requestId s \<and> p < promises s
          \<and> (\<forall>pending. pendingRequests s i = Some pending \<longrightarrow> p_promise pending = p))
      \<and> (\<forall>i j p. (i, p) \<in> set (timers s) \<longrightarrow> (j, p) \<in> set (timers s) \<longrightarrow> i = j)
      \<and> (\<forall>p. settled_count p s = (if p < promises s \<and> \<not> waiting p s then 1 else 0)))"

section \<open>The native messaging host (native-host/native-host.js)\<close>

text \<open>
  The host keeps a \<open>Map\<close> from its own request ids to the socket and id of the original
  request and the time it was forwarded. A \<open>Map\<close> iterates in insertion order, so it is
  a list of entries with distinct keys. What the host writes goes to the browser
  (\<open>nh_stdout\<close>) or to a plugin socket (\<open>nh_sent\<close>, with the socket).
\<close>

record nh_pending =
  nh_ws :: nat
  nh_originalId :: "nat option"
  nh_timestamp :: int

record native_host =
  nh_pendingRequests :: "(nat \<times> nh_pending) list"
  nh_requestId :: nat
  nh_readyState :: "nat \<Rightarrow> ready_state"
  nh_stdout :: "envelope list"
  nh_sent :: "(nat \<times> envelope) list"

definition mapSet :: "nat \<Rightarrow> 'v \<Rightarrow> (nat \<times> 'v) list \<Rightarrow> (nat \<times> 'v) list" where
  \<comment> \<open>\<open>Map.prototype.set\<close>: an existing key keeps its place\<close>
  "mapSet k v m =
     (if k \<in> fst ` set m then map (\<lambda>(k', v'). if k' = k then (k, v) else (k', v')) m
      else m @ [(k, v)])"

definition mapDelete :: "nat \<Rightarrow> (nat \<times> 'v) list \<Rightarrow> (nat \<times> 'v) list" where
  \<comment> \<open>\<open>Map.prototype.delete\<close>\<close>
  "mapDelete k m = filter (\<lambda>(k', _). k' \<noteq> k) m"

definition newHost :: native_host where
  "newHost = \<lparr>nh_pendingRequests = [], nh_requestId = 0, nh_readyState = (\<lambda>_. OPEN),
     nh_stdout = [], nh_sent = []\<rparr>"

definition handleStreamDeckMessage :: "nat \<Rightarrow> envelope \<Rightarrow> int \<Rightarrow> native_host \<Rightarrow> native_host" where
  "handleStreamDeckMessage ws message now s =
     (let i = increment (nh_requestId s) in
      s\<lparr>nh_requestId := i,
        nh_pendingRequests :=
          mapSet i \<lparr>nh_ws = ws, nh_originalId = e_id message, nh_timestamp = now\<rparr>
            (nh_pendingRequests s),
        nh_stdout := nh_stdout s @
          [emptyEnvelope\<lparr>e_id := Some i, e_action := e_action message, e_url := e_url message,
             e_tabId := e_tabId message, e_windowId := e_windowId message\<rparr>]\<rparr>)"

definition handleChromeMessage :: "envelope \<Rightarrow> native_host \<Rightarrow> native_host" where
  \<comment> \<open>the response is \<open>{ id: pending.originalId, ...message }\<close>: the fields of \<open>message\<close>
      come last, and \<open>message\<close> has an \<open>id\<close>, so the response is \<open>message\<close> as it came\<close>
  "handleChromeMessage message s =
     (case e_id message of
        None \<Rightarrow> s
      | Some i \<Rightarrow>
          (case map_of (nh_pendingRequests s) i of
             None \<Rightarrow> s
           | Some pending \<Rightarrow>
               (let s1 = s\<lparr>nh_pendingRequests := mapDelete i (nh_pendingRequests s)\<rparr> in
                if nh_readyState s (nh_ws pending) = OPEN
                then s1\<lparr>nh_sent := nh_sent s @ [(nh_ws pending, message)]\<rparr>
                else s1)))"

fun sweepLoop :: "int \<Rightarrow> (nat \<times> nh_pending) list \<Rightarrow> (nat \<times> nh_pending) list \<times> nat
    \<Rightarrow> (nat \<times> nh_pending) list \<times> nat" where
  \<comment> \<open>the loop over \<open>pendingRequests.entries()\<close>; \<open>cleaned\<close> is only logged\<close>
  "sweepLoop now [] (table, cleaned) = (table, cleaned)"
| "sweepLoop now ((i, pending) # entries) (table, cleaned) =
     (if now - nh_timestamp pending > 30000
      then sweepLoop now entries (mapDelete i table, cleaned + 1)
      else sweepLoop now entries (table, cleaned))"

definition sweep :: "int \<Rightarrow> native_host \<Rightarrow> native_host" where
  \<comment> \<open>the body of the \<open>setInterval\<close> callback, run at time \<open>now\<close>\<close>
  "sweep now s =
     (let (table, cleaned) = sweepLoop now (nh_pendingRequests s) (nh_pendingRequests s, 0)
      in s\<lparr>nh_pendingRequests := table\<rparr>)"

text \<open>For the proofs about the sweep: the entries it deletes, and their keys.\<close>

definition stale :: "int \<Rightarrow> nh_pending \<Rightarrow> bool" where
  "stale now pending = (30000 < now - nh_timestamp pending)"

definition staleKeys :: "int \<Rightarrow> (nat \<times> nh_pending) list \<Rightarrow> nat set" where
  "staleKeys now entries = fst ` {e \<in> set entries. stale now (snd e)}"

section \<open>Properties of the normalisation\<close>












lemma findTabLoop_empty_target: "findTabLoop unicodeLower [] (t # ts) = Some t"
  by (simp add: startsWith_def Let_def)

section \<open>Claims about the URL equivalence resolver\<close>

lemmas resolver_defs = normalizeURL_def toLowerCase_def isAscii_def lowerUnit_def
  replaceProtocol_def replaceWww_def replaceTrailingSlash_def startsWith_def
  isLineTerminator_def ascii_def




text \<open>
  Claim C8: whenever the directory is not empty and the target normalises to the empty
  string, \<open>findTabByURL\<close> returns the first tab of the directory. The empty string and
  \<open>https://\<close> are two such targets, and so is an absent \<open>url\<close>.
\<close>

theorem findTabByURL_empty_target_first_tab:
  "(normalizeURL_opt unicodeLower target = []
      \<longrightarrow> findTabByURL unicodeLower (t # ts) target = Some t)
   \<and> normalizeURL_opt unicodeLower (Some []) = []
   \<and> normalizeURL_opt unicodeLower (Some (ascii ''https://'')) = []
   \<and> normalizeURL_opt unicodeLower None = []"
proof -
  have "findTabByURL unicodeLower (t # ts) target = Some t"
    if "normalizeURL_opt unicodeLower target = []"
    using that by (simp only: findTabByURL_def findTabLoop_empty_target)
  moreover have "normalizeURL_opt unicodeLower (Some []) = []"
    "normalizeURL_opt unicodeLower None = []"
    by (simp_all add: normalizeURL_opt_def normalizeURL_def)
  moreover have "normalizeURL_opt unicodeLower (Some (ascii ''https://'')) = []"
    by (simp add: normalizeURL_opt_def resolver_defs)
  ultimately show ?thesis by blast
qed

theorem findTabByURL_empty_target_first_tab_witness:
  "findTabByURL (\<lambda>s. s)
     [\<lparr>tab_id = 7, tab_windowId = 1, tab_url = ascii ''https://github.com/foo'',
       tab_title = ascii ''foo'', tab_active = False, tab_favIconUrl = []\<rparr>,
      \<lparr>tab_id = 8, tab_windowId = 1, tab_url = ascii ''https://example.org/'',
       tab_title = ascii ''bar'', tab_active = True, tab_favIconUrl = []\<rparr>]
     (Some (ascii ''https://''))
   = Some \<lparr>tab_id = 7, tab_windowId = 1, tab_url = ascii ''https://github.com/foo'',
       tab_title = ascii ''foo'', tab_active = False, tab_favIconUrl = []\<rparr>"
  using findTabByURL_empty_target_first_tab [of "\<lambda>s. s" "Some (ascii ''https://'')"]
  by simp

section \<open>Claims about the browser-side agent\<close>

lemma pluginResponse_cases:
  assumes "pluginResponse b m = Some r"
  shows "(e_action m = Some (ascii ''getTabs'')
            \<and> e_tabs r \<noteq> None \<and> e_result r = None \<and> e_error r = None)
         \<or> (e_action m \<noteq> Some (ascii ''getTabs'')
            \<and> e_tabs r = None \<and> e_result r \<noteq> None \<and> e_error r = None)
         \<or> (e_action m \<noteq> Some (ascii ''getTabs'')
            \<and> e_tabs r = None \<and> e_result r = None \<and> e_error r \<noteq> None)"
  using assms
  by (auto simp: pluginResponse_def emptyEnvelope_def Let_def split: if_splits option.splits)

text \<open>
  Claim C6, as the specification states it: every response envelope carries exactly one of
  \<open>result\<close> and \<open>error\<close>, whatever the action. The reply to \<open>getTabs\<close> carries neither:
  the tab list travels in a field of its own, \<open>tabs\<close>.
\<close>

theorem getTabs_response_has_neither_result_nor_error:
  "pluginResponse
     \<lparr>unicode_lower = (\<lambda>s. s), tabs_query = Some [], tabs_update = (\<lambda>_. None), windows_update = (\<lambda>_. None),
      tabs_create = (\<lambda>_. Inr 1)\<rparr>
     (emptyEnvelope\<lparr>e_id := Some 1, e_action := Some (ascii ''getTabs'')\<rparr>)
   = Some (emptyEnvelope\<lparr>e_id := Some 1, e_tabs := Some []\<rparr>)
   \<and> e_result (emptyEnvelope\<lparr>e_id := Some 1, e_tabs := Some []\<rparr>) = None
   \<and> e_error (emptyEnvelope\<lparr>e_id := Some 1, e_tabs := Some []\<rparr>) = None"
  by (simp add: pluginResponse_def emptyEnvelope_def getAllTabs_def)

text \<open>
  Claim C6, amended: on every response envelope the agent produces, \<open>result\<close> and \<open>error\<close>
  are never both present; exactly one of them is present for every action tag other than
  \<open>getTabs\<close>; the reply to \<open>getTabs\<close> has neither and carries \<open>tabs\<close> instead.
\<close>

theorem response_result_error_exclusive:
  assumes "pluginResponse b m = Some r"
  shows "\<not> (e_result r \<noteq> None \<and> e_error r \<noteq> None)
         \<and> (e_action m \<noteq> Some (ascii ''getTabs'') \<longrightarrow> (e_result r \<noteq> None) \<noteq> (e_error r \<noteq> None))
         \<and> (e_action m = Some (ascii ''getTabs'') \<longrightarrow>
              e_result r = None \<and> e_error r = None \<and> e_tabs r \<noteq> None)"
  using pluginResponse_cases [OF assms] by auto

theorem response_result_error_exclusive_witness:
  "pluginResponse
     \<lparr>unicode_lower = (\<lambda>s. s), tabs_query = Some [], tabs_update = (\<lambda>_. None), windows_update = (\<lambda>_. None),
      tabs_create = (\<lambda>_. Inr 5)\<rparr>
     (emptyEnvelope\<lparr>e_id := Some 3, e_action := Some (ascii ''switchToURL''),
                    e_url := Some (ascii ''github.com'')\<rparr>)
   = Some (emptyEnvelope\<lparr>e_id := Some 3, e_result := Some (ResultObject
       \<lparr>r_success = True, r_error = None, r_tabId = Some 5, r_action = Some (ascii ''opened''),
        r_tab = None\<rparr>)\<rparr>)
   \<and> e_error (emptyEnvelope\<lparr>e_id := Some 3, e_result := Some (ResultObject
       \<lparr>r_success = True, r_error = None, r_tabId = Some 5, r_action = Some (ascii ''opened''),
        r_tab = None\<rparr>)\<rparr>) = None"
proof -
  let ?b = "\<lparr>unicode_lower = (\<lambda>s. s), tabs_query = Some [], tabs_update = (\<lambda>_. None), windows_update = (\<lambda>_. None),
      tabs_create = (\<lambda>_. Inr 5)\<rparr>"
  let ?m = "emptyEnvelope\<lparr>e_id := Some 3, e_action := Some (ascii ''switchToURL''),
                    e_url := Some (ascii ''github.com'')\<rparr>"
  let ?r = "emptyEnvelope\<lparr>e_id := Some 3, e_result := Some (ResultObject
       \<lparr>r_success = True, r_error = None, r_tabId = Some 5, r_action = Some (ascii ''opened''),
        r_tab = None\<rparr>)\<rparr>"
  have tags: "ascii ''switchToURL'' \<noteq> ascii ''getTabs''"
    by (simp add: ascii_def)
  have run: "pluginResponse ?b ?m = Some ?r"
    using tags
    by (simp add: pluginResponse_def emptyEnvelope_def switchToURL_def getAllTabs_def
        findTabByURL_def openURL_def)
  from response_result_error_exclusive [OF run] have "e_error ?r = None"
    by (simp add: emptyEnvelope_def)
  with run show ?thesis by (simp only: simp_thms)
qed

text \<open>
  Claim C9: a request whose action tag is none of \<open>getTabs\<close>, \<open>switchToURL\<close>,
  \<open>activateTab\<close> and \<open>ping\<close> is answered, on an open websocket, by exactly one envelope:
  it has the id of the request, the error \<open>Unknown action: \<close> followed by the tag, and no
  other field, so no result. A request with no action tag at all gets the same reply with
  \<open>undefined\<close> in the place of the tag.
\<close>

theorem unknown_action_reply:
  "(e_action m = Some a \<and> a \<noteq> ascii ''getTabs'' \<and> a \<noteq> ascii ''switchToURL''
      \<and> a \<noteq> ascii ''activateTab'' \<and> a \<noteq> ascii ''ping''
    \<longrightarrow> handlePluginMessage True b m =
          [\<lparr>e_id = e_id m, e_action = None, e_url = None, e_tabId = None, e_windowId = None,
            e_tabs = None, e_result = None, e_error = Some (ascii ''Unknown action: '' @ a)\<rparr>])
   \<and> (e_action m = None
    \<longrightarrow> handlePluginMessage True b m =
          [\<lparr>e_id = e_id m, e_action = None, e_url = None, e_tabId = None, e_windowId = None,
            e_tabs = None, e_result = None,
            e_error = Some (ascii ''Unknown action: '' @ ascii ''undefined'')\<rparr>])"
  by (simp add: handlePluginMessage_def pluginResponse_def sendToPlugin_def emptyEnvelope_def
      actionText_def)

theorem unknown_action_reply_witness:
  "handlePluginMessage True
     \<lparr>unicode_lower = (\<lambda>s. s), tabs_query = None, tabs_update = (\<lambda>_. None), windows_update = (\<lambda>_. None),
      tabs_create = (\<lambda>_. Inr 1)\<rparr>
     (emptyEnvelope\<lparr>e_id := Some 42, e_action := Some (ascii ''closeTab'')\<rparr>)
   = [emptyEnvelope\<lparr>e_id := Some 42, e_error := Some (ascii ''Unknown action: closeTab'')\<rparr>]"
proof -
  have tags: "ascii ''closeTab'' \<noteq> ascii ''getTabs''" "ascii ''closeTab'' \<noteq> ascii ''switchToURL''"
    "ascii ''closeTab'' \<noteq> ascii ''activateTab''" "ascii ''closeTab'' \<noteq> ascii ''ping''"
    by (simp_all add: ascii_def)
  have cat: "ascii ''Unknown action: '' @ ascii ''closeTab'' = ascii ''Unknown action: closeTab''"
    by (simp add: ascii_def)
  show ?thesis
    using unknown_action_reply [of
        "emptyEnvelope\<lparr>e_id := Some 42, e_action := Some (ascii ''closeTab'')\<rparr>"
        "ascii ''closeTab''"
        "\<lparr>unicode_lower = (\<lambda>s. s), tabs_query = None, tabs_update = (\<lambda>_. None), windows_update = (\<lambda>_. None),
          tabs_create = (\<lambda>_. Inr 1)\<rparr>"] tags
    by (simp add: emptyEnvelope_def cat)
qed

section \<open>Claims about the button display\<close>

lemma split_not_empty: "split sep s \<noteq> []"
  by (induction s) (auto split: list.splits)

lemma firstPiece_split: "firstPiece (split sep s) = takeWhile (\<lambda>c. c \<noteq> sep) s"
proof (induction s)
  case Nil
  show ?case by (simp add: firstPiece_def)
next
  case (Cons c cs)
  then show ?case
    using split_not_empty [of sep cs]
    by (cases "split sep cs") (auto simp: firstPiece_def)
qed

lemma length_literals:
  "length (ascii ''https://'') = 8" "length (ascii ''http://'') = 7" "length (ascii ''www.'') = 4"
  by (simp_all add: ascii_def)

lemma replaceProtocol_stripPrefix:
  "replaceProtocol u =
     (if prefix (ascii ''https://'') u then stripPrefix (ascii ''https://'') u
      else stripPrefix (ascii ''http://'') u)"
  by (simp add: replaceProtocol_def stripPrefix_def startsWith_def length_literals)

lemma replaceWww_stripPrefix: "replaceWww s = stripPrefix (ascii ''www.'') s"
  by (simp add: replaceWww_def stripPrefix_def startsWith_def length_literals)

lemma getURLSnippet_spec: "getURLSnippet (Some u) = spec_snippet u"
proof (cases "u = []")
  case True
  then show ?thesis
    by (simp add: getURLSnippet_def spec_snippet_def stripPrefix_def)
next
  case False
  then show ?thesis
    by (simp add: getURLSnippet_def spec_snippet_def Let_def firstPiece_split
        replaceWww_stripPrefix replaceProtocol_stripPrefix)
qed

lemma snippet_example:
  "getURLSnippet (Some (ascii ''https://www.verylongdomain.com/x'')) = ascii ''verylongdo'' @ [8230]"
  by (simp add: getURLSnippet_def replaceProtocol_def replaceWww_def startsWith_def firstPiece_def
      ascii_def)

text \<open>
  Claim C7: the display mapping. Disconnected, the title is the fixed indicator whatever
  the settings are. Connected, it is the configured label when one is set (present and
  not empty), and otherwise the snippet of the configured URL as the specification
  describes it (the empty string when no URL is configured, or no settings at all). For
  the settings
  \<open>{url: "https://www.verylongdomain.com/x"}\<close> the snippet is \<open>verylongdo\<close> followed by
  the ellipsis, 11 code units.
\<close>

theorem button_display_mapping:
  "updateButtonState actionSettings context False
     = [SetTitle context disconnectedTitle, SetState context 0]
   \<and> (actionSettings context = Some st \<and> s_title st = Some label \<and> label \<noteq> []
        \<longrightarrow> updateButtonState actionSettings context True
              = [SetTitle context label, SetState context 0])
   \<and> (actionSettings context = Some st \<and> (s_title st = None \<or> s_title st = Some [])
        \<longrightarrow> updateButtonState actionSettings context True
              = [SetTitle context (case s_url st of None \<Rightarrow> [] | Some u \<Rightarrow> spec_snippet u),
                 SetState context 0])
   \<and> (actionSettings context = None
        \<longrightarrow> updateButtonState actionSettings context True
              = [SetTitle context [], SetState context 0])
   \<and> updateButtonState
        [ctx \<mapsto> \<lparr>s_url = Some (ascii ''https://www.verylongdomain.com/x''), s_title = None\<rparr>]
        ctx True
       = [SetTitle ctx (ascii ''verylongdo'' @ [8230]), SetState ctx 0]
   \<and> length (ascii ''verylongdo'' @ [8230]) = 11"
proof -
  have unset: "updateButtonState actionSettings context True
              = [SetTitle context [], SetState context 0]"
    if "actionSettings context = None"
    using that by (simp add: updateButtonState_def titleOr_def getURLSnippet_def)
  have disconnected: "updateButtonState actionSettings context False
     = [SetTitle context disconnectedTitle, SetState context 0]"
    by (simp add: updateButtonState_def)
  have labelled: "updateButtonState actionSettings context True
              = [SetTitle context label, SetState context 0]"
    if "actionSettings context = Some st" "s_title st = Some label" "label \<noteq> []"
    using that by (simp add: updateButtonState_def titleOr_def)
  have derived: "updateButtonState actionSettings context True
              = [SetTitle context (case s_url st of None \<Rightarrow> [] | Some u \<Rightarrow> spec_snippet u),
                 SetState context 0]"
    if "actionSettings context = Some st" "s_title st = None \<or> s_title st = Some []"
  proof (cases "s_url st")
    case None
    with that show ?thesis
      by (auto simp: updateButtonState_def titleOr_def getURLSnippet_def)
  next
    case (Some u)
    with that show ?thesis
      by (auto simp: updateButtonState_def titleOr_def getURLSnippet_spec)
  qed
  have example: "updateButtonState
        [ctx \<mapsto> \<lparr>s_url = Some (ascii ''https://www.verylongdomain.com/x''), s_title = None\<rparr>]
        ctx True
       = [SetTitle ctx (ascii ''verylongdo'' @ [8230]), SetState ctx 0]"
    by (simp add: updateButtonState_def titleOr_def snippet_example)
  have len: "length (ascii ''verylongdo'' @ [8230]) = 11"
    by (simp add: ascii_def)
  from disconnected labelled derived unset example len show ?thesis by blast
qed

theorem button_display_mapping_witness:
  "updateButtonState
     [ascii ''B1'' \<mapsto> \<lparr>s_url = Some (ascii ''http://www.github.com/foo''), s_title = Some []\<rparr>]
     (ascii ''B1'') True
   = [SetTitle (ascii ''B1'') (ascii ''github.com''), SetState (ascii ''B1'') 0]
   \<and> updateButtonState
     [ascii ''B1'' \<mapsto> \<lparr>s_url = Some (ascii ''http://www.github.com/foo''),
                        s_title = Some (ascii ''Hub'')\<rparr>]
     (ascii ''B1'') True
   = [SetTitle (ascii ''B1'') (ascii ''Hub''), SetState (ascii ''B1'') 0]"
proof -
  have snippet: "spec_snippet (ascii ''http://www.github.com/foo'') = ascii ''github.com''"
    by (simp add: spec_snippet_def stripPrefix_def ascii_def)
  have hub: "ascii ''Hub'' \<noteq> []"
    by (simp add: ascii_def)
  have "updateButtonState
     [ascii ''B1'' \<mapsto> \<lparr>s_url = Some (ascii ''http://www.github.com/foo''), s_title = Some []\<rparr>]
     (ascii ''B1'') True
   = [SetTitle (ascii ''B1'') (ascii ''github.com''), SetState (ascii ''B1'') 0]"
    using button_display_mapping [of
        "[ascii ''B1'' \<mapsto> \<lparr>s_url = Some (ascii ''http://www.github.com/foo''), s_title = Some []\<rparr>]"
        "ascii ''B1''"
        "\<lparr>s_url = Some (ascii ''http://www.github.com/foo''), s_title = Some []\<rparr>"]
    by (simp add: snippet)
  moreover have "updateButtonState
     [ascii ''B1'' \<mapsto> \<lparr>s_url = Some (ascii ''http://www.github.com/foo''),
                        s_title = Some (ascii ''Hub'')\<rparr>]
     (ascii ''B1'') True
   = [SetTitle (ascii ''B1'') (ascii ''Hub''), SetState (ascii ''B1'') 0]"
    using hub by (simp add: updateButtonState_def titleOr_def)
  ultimately show ?thesis by blast
qed

section \<open>The invariant of the pending-request table\<close>

lemma broker_inv_new: "broker_inv newServer"
  by (simp add: broker_inv_def newServer_def settled_count_def waiting_def)

lemma broker_inv_cong:
  assumes "pendingRequests s' = pendingRequests s" "requestId s' = requestId s"
    "timers s' = timers s" "promises s' = promises s"
    "\<And>p. filter (settles p) (effects s') = filter (settles p) (effects s)"
  shows "broker_inv s' = broker_inv s"
  using assms by (simp add: broker_inv_def waiting_def settled_count_def)

lemma notify_core:
  "pendingRequests (notify b s) = pendingRequests s" "requestId (notify b s) = requestId s"
  "timers (notify b s) = timers s" "promises (notify b s) = promises s"
  "filter (settles p) (effects (notify b s)) = filter (settles p) (effects s)"
  by (simp_all add: notify_def)

lemma start_core:
  "pendingRequests (start t s) = pendingRequests s" "requestId (start t s) = requestId s"
  "timers (start t s) = timers s" "promises (start t s) = promises s"
  "filter (settles p) (effects (start t s)) = filter (settles p) (effects s)"
  by (simp_all add: start_def)

lemma onConnection_core:
  "pendingRequests (onConnection ws s) = pendingRequests s" "requestId (onConnection ws s) = requestId s"
  "timers (onConnection ws s) = timers s" "promises (onConnection ws s) = promises s"
  "filter (settles p) (effects (onConnection ws s)) = filter (settles p) (effects s)"
  by (simp_all add: onConnection_def notify_core Let_def split: option.splits)

lemma onClose_core:
  "pendingRequests (onClose ws s) = pendingRequests s" "requestId (onClose ws s) = requestId s"
  "timers (onClose ws s) = timers s" "promises (onClose ws s) = promises s"
  "filter (settles p) (effects (onClose ws s)) = filter (settles p) (effects s)"
  by (simp_all add: onClose_def notify_core)

lemma sendRaw_core:
  "pendingRequests (sendRawToExtension m s) = pendingRequests s" "requestId (sendRawToExtension m s) = requestId s"
  "timers (sendRawToExtension m s) = timers s" "promises (sendRawToExtension m s) = promises s"
  "filter (settles p) (effects (sendRawToExtension m s)) = filter (settles p) (effects s)"
  by (simp_all add: sendRawToExtension_def socketSend_def split: option.splits)

lemma inv_tableD:
  assumes "broker_inv s" "pendingRequests s i = Some pending"
  shows "i \<le> requestId s" "p_promise pending < promises s" "(i, p_promise pending) \<in> set (timers s)"
  using assms unfolding broker_inv_def by blast+

lemma inv_timerD:
  assumes "broker_inv s" "(i, p) \<in> set (timers s)"
  shows "i \<le> requestId s" "p < promises s" "pendingRequests s i = Some pending \<Longrightarrow> p_promise pending = p"
  using assms unfolding broker_inv_def by blast+

lemma inv_uniqueD:
  assumes "broker_inv s" "(i, p) \<in> set (timers s)" "(j, p) \<in> set (timers s)"
  shows "i = j"
  using assms unfolding broker_inv_def by blast

lemma inv_countD:
  assumes "broker_inv s"
  shows "settled_count p s = (if p < promises s \<and> \<not> waiting p s then 1 else 0)"
  using assms unfolding broker_inv_def by blast

lemma inv_resolve:
  assumes inv: "broker_inv s" and i: "pendingRequests s i = Some pending"
    and p: "pendingRequests s' = (pendingRequests s)(i := None)"
    and r: "requestId s' = requestId s" and t: "set (timers s) - {(i, p_promise pending)} \<subseteq> set (timers s')" "set (timers s') \<subseteq> set (timers s)"
    and pr: "promises s' = promises s"
    and e: "effects s' = effects s @ [x]" "\<And>q. settles q x = (p_promise pending = q)"
  shows "broker_inv s'"
proof -
  let ?p = "p_promise pending"
  have w: "waiting q s' = (waiting q s \<and> q \<noteq> ?p)" for q
  proof
    assume "waiting q s'"
    then obtain j pj where j: "j \<noteq> i" "pendingRequests s j = Some pj" "p_promise pj = q"
      by (auto simp: waiting_def p split: if_splits)
    then have "waiting q s" by (auto simp: waiting_def)
    moreover have "q \<noteq> ?p"
    proof
      assume "q = ?p"
      with inv_tableD(3) [OF inv i] inv_tableD(3) [OF inv j(2)] j(3)
      have "(i, ?p) \<in> set (timers s)" "(j, ?p) \<in> set (timers s)"
        by simp_all
      then have "i = j" by (rule inv_uniqueD [OF inv])
      with j show False by simp
    qed
    ultimately show "waiting q s \<and> q \<noteq> ?p" by simp
  next
    assume a: "waiting q s \<and> q \<noteq> ?p"
    then obtain j pj where j: "pendingRequests s j = Some pj" "p_promise pj = q"
      by (auto simp: waiting_def)
    with a i have "j \<noteq> i" by auto
    with j show "waiting q s'" by (auto simp: waiting_def p)
  qed
  have c: "settled_count q s' = settled_count q s + (if q = ?p then 1 else 0)" for q
    by (auto simp: settled_count_def e)
  have wp: "waiting ?p s" using i by (auto simp: waiting_def)
  have plt: "?p < promises s" by (rule inv_tableD [OF inv i])
  have 1: "\<forall>j pj. pendingRequests s' j = Some pj \<longrightarrow>
          j \<le> requestId s' \<and> p_promise pj < promises s' \<and> (j, p_promise pj) \<in> set (timers s')"
  proof (intro allI impI)
    fix j pj assume a: "pendingRequests s' j = Some pj"
    then have ji: "j \<noteq> i" and b: "pendingRequests s j = Some pj"
      by (auto simp: p split: if_splits)
    have "j \<le> requestId s" "p_promise pj < promises s" "(j, p_promise pj) \<in> set (timers s)"
      by (rule inv_tableD [OF inv b])+
    with ji t show "j \<le> requestId s' \<and> p_promise pj < promises s' \<and> (j, p_promise pj) \<in> set (timers s')"
      by (auto simp: r pr)
  qed
  have 2: "\<forall>j q. (j, q) \<in> set (timers s') \<longrightarrow> j \<le> requestId s' \<and> q < promises s'
          \<and> (\<forall>pj. pendingRequests s' j = Some pj \<longrightarrow> p_promise pj = q)"
  proof (intro allI impI)
    fix j q assume "(j, q) \<in> set (timers s')"
    with t(2) have a: "(j, q) \<in> set (timers s)" by blast
    show "j \<le> requestId s' \<and> q < promises s'
          \<and> (\<forall>pj. pendingRequests s' j = Some pj \<longrightarrow> p_promise pj = q)"
      using inv_timerD [OF inv a] by (auto simp: r pr p)
  qed
  have 3: "\<forall>j k q. (j, q) \<in> set (timers s') \<longrightarrow> (k, q) \<in> set (timers s') \<longrightarrow> j = k"
    using inv_uniqueD [OF inv] t(2) by blast
  have 4: "\<forall>q. settled_count q s' = (if q < promises s' \<and> \<not> waiting q s' then 1 else 0)"
  proof
    fix q
    have "settled_count q s = (if q < promises s \<and> \<not> waiting q s then 1 else 0)"
      by (rule inv_countD [OF inv])
    then show "settled_count q s' = (if q < promises s' \<and> \<not> waiting q s' then 1 else 0)"
      using wp plt by (auto simp: c w pr)
  qed
  from 1 2 3 4 show ?thesis unfolding broker_inv_def by blast
qed

lemma inv_forget_timer:
  assumes inv: "broker_inv s" and i: "pendingRequests s i = None"
    and p: "pendingRequests s' = pendingRequests s"
    and r: "requestId s' = requestId s"
    and t: "set (timers s) - {(i, q)} \<subseteq> set (timers s')" "set (timers s') \<subseteq> set (timers s)"
    and pr: "promises s' = promises s"
    and e: "effects s' = effects s"
  shows "broker_inv s'"
proof -
  have 1: "\<forall>j pj. pendingRequests s' j = Some pj \<longrightarrow>
          j \<le> requestId s' \<and> p_promise pj < promises s' \<and> (j, p_promise pj) \<in> set (timers s')"
  proof (intro allI impI)
    fix j pj assume "pendingRequests s' j = Some pj"
    then have b: "pendingRequests s j = Some pj" by (simp add: p)
    with i have ji: "j \<noteq> i" by auto
    have "j \<le> requestId s" "p_promise pj < promises s" "(j, p_promise pj) \<in> set (timers s)"
      by (rule inv_tableD [OF inv b])+
    with ji t show "j \<le> requestId s' \<and> p_promise pj < promises s' \<and> (j, p_promise pj) \<in> set (timers s')"
      by (auto simp: r pr)
  qed
  have 2: "\<forall>j q. (j, q) \<in> set (timers s') \<longrightarrow> j \<le> requestId s' \<and> q < promises s'
          \<and> (\<forall>pj. pendingRequests s' j = Some pj \<longrightarrow> p_promise pj = q)"
  proof (intro allI impI)
    fix j q assume "(j, q) \<in> set (timers s')"
    with t(2) have a: "(j, q) \<in> set (timers s)" by blast
    show "j \<le> requestId s' \<and> q < promises s'
          \<and> (\<forall>pj. pendingRequests s' j = Some pj \<longrightarrow> p_promise pj = q)"
      using inv_timerD [OF inv a] by (auto simp: r pr p)
  qed
  have 3: "\<forall>j k q. (j, q) \<in> set (timers s') \<longrightarrow> (k, q) \<in> set (timers s') \<longrightarrow> j = k"
    using inv_uniqueD [OF inv] t(2) by blast
  have 4: "\<forall>q. settled_count q s' = (if q < promises s' \<and> \<not> waiting q s' then 1 else 0)"
    using inv_countD [OF inv] by (simp add: settled_count_def waiting_def e p pr)
  from 1 2 3 4 show ?thesis unfolding broker_inv_def by blast
qed

lemma inv_reject_new:
  assumes inv: "broker_inv s"
    and p: "pendingRequests s' = pendingRequests s"
    and r: "requestId s' = requestId s"
    and t: "timers s' = timers s"
    and pr: "promises s' = Suc (promises s)"
    and e: "effects s' = effects s @ [Reject (promises s) msg]"
  shows "broker_inv s'"
proof -
  have nw: "\<not> waiting (promises s) s"
    using inv_tableD(2) [OF inv] by (fastforce simp: waiting_def)
  have 1: "\<forall>j pj. pendingRequests s' j = Some pj \<longrightarrow>
          j \<le> requestId s' \<and> p_promise pj < promises s' \<and> (j, p_promise pj) \<in> set (timers s')"
    using inv_tableD [OF inv] by (auto simp: p r t pr less_Suc_eq)
  have 2: "\<forall>j q. (j, q) \<in> set (timers s') \<longrightarrow> j \<le> requestId s' \<and> q < promises s'
          \<and> (\<forall>pj. pendingRequests s' j = Some pj \<longrightarrow> p_promise pj = q)"
    using inv_timerD [OF inv] by (auto simp: p r t pr less_Suc_eq)
  have 3: "\<forall>j k q. (j, q) \<in> set (timers s') \<longrightarrow> (k, q) \<in> set (timers s') \<longrightarrow> j = k"
    using inv_uniqueD [OF inv] by (auto simp: t)
  have 4: "\<forall>q. settled_count q s' = (if q < promises s' \<and> \<not> waiting q s' then 1 else 0)"
  proof
    fix q
    have w: "waiting q s' = waiting q s" by (simp add: waiting_def p)
    have c: "settled_count q s' = settled_count q s + (if q = promises s then 1 else 0)"
      by (simp add: settled_count_def e)
    show "settled_count q s' = (if q < promises s' \<and> \<not> waiting q s' then 1 else 0)"
      using inv_countD [OF inv, of q] nw by (auto simp: c w pr less_Suc_eq)
  qed
  from 1 2 3 4 show ?thesis unfolding broker_inv_def by blast
qed

lemma inv_register:
  assumes inv: "broker_inv s"
    and p: "pendingRequests s' = (pendingRequests s)(Suc (requestId s) \<mapsto> pending)"
    and pp: "p_promise pending = promises s"
    and r: "requestId s' = Suc (requestId s)"
    and t: "timers s' = timers s @ [(Suc (requestId s), promises s)]"
    and pr: "promises s' = Suc (promises s)"
    and e: "\<And>q. filter (settles q) (effects s') = filter (settles q) (effects s)"
  shows "broker_inv s'"
proof -
  let ?n = "Suc (requestId s)"
  let ?p = "promises s"
  have fresh: "pendingRequests s ?n = None"
  proof (cases "pendingRequests s ?n")
    case (Some x)
    from inv_tableD(1) [OF inv Some] show ?thesis by simp
  qed simp
  have old_timer: "j \<le> requestId s \<and> q < ?p" if "(j, q) \<in> set (timers s)" for j q
    using inv_timerD(1,2) [OF inv that] by simp
  have 1: "\<forall>j pj. pendingRequests s' j = Some pj \<longrightarrow>
          j \<le> requestId s' \<and> p_promise pj < promises s' \<and> (j, p_promise pj) \<in> set (timers s')"
  proof (intro allI impI)
    fix j pj assume a: "pendingRequests s' j = Some pj"
    show "j \<le> requestId s' \<and> p_promise pj < promises s' \<and> (j, p_promise pj) \<in> set (timers s')"
    proof (cases "j = ?n")
      case True
      with a have "pj = pending" by (simp add: p)
      with True show ?thesis by (simp add: r pr t pp)
    next
      case False
      with a have b: "pendingRequests s j = Some pj" by (simp add: p)
      from inv_tableD [OF inv b] show ?thesis by (simp add: r pr t)
    qed
  qed
  have 2: "\<forall>j q. (j, q) \<in> set (timers s') \<longrightarrow> j \<le> requestId s' \<and> q < promises s'
          \<and> (\<forall>pj. pendingRequests s' j = Some pj \<longrightarrow> p_promise pj = q)"
  proof (intro allI impI)
    fix j q assume a: "(j, q) \<in> set (timers s')"
    show "j \<le> requestId s' \<and> q < promises s'
          \<and> (\<forall>pj. pendingRequests s' j = Some pj \<longrightarrow> p_promise pj = q)"
    proof (cases "(j, q) \<in> set (timers s)")
      case True
      from old_timer [OF True] inv_timerD(3) [OF inv True] show ?thesis
        by (auto simp: r pr p)
    next
      case False
      with a have "j = ?n" "q = ?p" by (simp_all add: t)
      then show ?thesis by (simp add: r pr p pp)
    qed
  qed
  have 3: "\<forall>j k q. (j, q) \<in> set (timers s') \<longrightarrow> (k, q) \<in> set (timers s') \<longrightarrow> j = k"
  proof (intro allI impI)
    fix j k q assume a: "(j, q) \<in> set (timers s')" "(k, q) \<in> set (timers s')"
    show "j = k"
    proof (cases "q = ?p")
      case True
      with a old_timer show ?thesis by (auto simp: t)
    next
      case False
      with a have "(j, q) \<in> set (timers s)" "(k, q) \<in> set (timers s)" by (simp_all add: t)
      then show ?thesis by (rule inv_uniqueD [OF inv])
    qed
  qed
  have 4: "\<forall>q. settled_count q s' = (if q < promises s' \<and> \<not> waiting q s' then 1 else 0)"
  proof
    fix q
    have nw: "\<not> waiting ?p s"
      using inv_tableD(2) [OF inv] by (fastforce simp: waiting_def)
    have w: "waiting q s' = (waiting q s \<or> q = ?p)"
    proof
      assume "waiting q s'"
      then obtain j pj where j: "pendingRequests s' j = Some pj" "p_promise pj = q"
        by (auto simp: waiting_def)
      show "waiting q s \<or> q = ?p"
      proof (cases "j = ?n")
        case True
        with j pp show ?thesis by (auto simp: p)
      next
        case False
        with j show ?thesis by (auto simp: p waiting_def)
      qed
    next
      assume a: "waiting q s \<or> q = ?p"
      show "waiting q s'"
      proof (cases "q = ?p")
        case True
        then show ?thesis unfolding waiting_def p using pp by (intro exI [of _ ?n] exI [of _ pending]) simp
      next
        case False
        with a obtain j pj where j: "pendingRequests s j = Some pj" "p_promise pj = q"
          by (auto simp: waiting_def)
        with fresh have "j \<noteq> ?n" by auto
        with j show ?thesis unfolding waiting_def p by (intro exI [of _ j] exI [of _ pj]) simp
      qed
    qed
    have c: "settled_count q s' = settled_count q s"
      by (simp add: settled_count_def e)
    show "settled_count q s' = (if q < promises s' \<and> \<not> waiting q s' then 1 else 0)"
      using inv_countD [OF inv, of q] nw by (auto simp: c w pr less_Suc_eq)
  qed
  from 1 2 3 4 show ?thesis unfolding broker_inv_def by blast
qed

lemma inv_handleExtensionMessage:
  assumes "broker_inv s"
  shows "broker_inv (handleExtensionMessage m s)"
proof (cases "e_action m = Some (ascii ''ping'')")
  case True
  then show ?thesis
    using assms by (simp add: handleExtensionMessage_def broker_inv_cong [OF sendRaw_core])
next
  case False
  show ?thesis
  proof (cases "e_id m")
    case None
    with False assms show ?thesis by (simp add: handleExtensionMessage_def)
  next
    case (Some i)
    show ?thesis
    proof (cases "pendingRequests s i")
      case None
      with False Some assms show ?thesis by (simp add: handleExtensionMessage_def)
    next
      case (Some pending)
      let ?s1 = "s\<lparr>pendingRequests := (pendingRequests s)(i := None)\<rparr>"
      show ?thesis
      proof (cases "e_error m = None \<or> e_error m = Some []")
        case True
        with False \<open>e_id m = Some i\<close> Some
        have "handleExtensionMessage m s = ?s1\<lparr>effects := effects s @ [Resolve (p_promise pending) m]\<rparr>"
          by (auto simp: handleExtensionMessage_def Let_def)
        moreover have "broker_inv (?s1\<lparr>effects := effects s @ [Resolve (p_promise pending) m]\<rparr>)"
          by (rule inv_resolve [OF assms Some, where x = "Resolve (p_promise pending) m"]) simp_all
        ultimately show ?thesis by simp
      next
        case no: False
        then obtain err where err: "e_error m = Some err" "err \<noteq> []" by auto
        with False \<open>e_id m = Some i\<close> Some
        have "handleExtensionMessage m s = ?s1\<lparr>effects := effects s @ [Reject (p_promise pending) err]\<rparr>"
          by (auto simp: handleExtensionMessage_def Let_def)
        moreover have "broker_inv (?s1\<lparr>effects := effects s @ [Reject (p_promise pending) err]\<rparr>)"
          by (rule inv_resolve [OF assms Some, where x = "Reject (p_promise pending) err"]) simp_all
        ultimately show ?thesis by simp
      qed
    qed
  qed
qed

lemma set_remove_nth:
  assumes "n < length ts"
  shows "set (take n ts @ drop (Suc n) ts) \<subseteq> set ts"
    and "set ts - {ts ! n} \<subseteq> set (take n ts @ drop (Suc n) ts)"
proof -
  have "ts = take n ts @ ts ! n # drop (Suc n) ts"
    using assms by (rule id_take_nth_drop)
  then have "set ts = set (take n ts @ drop (Suc n) ts) \<union> {ts ! n}"
    by (metis Un_insert_right list.simps(15) set_append sup_bot.right_neutral)
  then show "set (take n ts @ drop (Suc n) ts) \<subseteq> set ts"
    and "set ts - {ts ! n} \<subseteq> set (take n ts @ drop (Suc n) ts)"
    by auto
qed

lemma inv_timeoutFires:
  assumes inv: "broker_inv s"
  shows "broker_inv (timeoutFires n s)"
proof (cases "n < length (timers s)")
  case False
  with inv show ?thesis by (simp add: timeoutFires_def)
next
  case True
  obtain i p where ip: "timers s ! n = (i, p)" by (cases "timers s ! n")
  with True have mem: "(i, p) \<in> set (timers s)" by (metis nth_mem)
  note sub = set_remove_nth [OF True, unfolded ip]
  show ?thesis
  proof (cases "pendingRequests s i")
    case None
    show ?thesis
      by (rule inv_forget_timer [OF inv None, where q = p])
        (use True ip None sub in \<open>simp_all add: timeoutFires_def\<close>)
  next
    case (Some pending)
    have pp: "p_promise pending = p" by (rule inv_timerD(3) [OF inv mem Some])
    show ?thesis
      by (rule inv_resolve [OF inv Some, where x = "Reject p (ascii ''Request timeout'')"])
        (use True ip Some sub pp in \<open>simp_all add: timeoutFires_def\<close>)
  qed
qed

lemma inv_sendToExtension:
  assumes inv: "broker_inv s" and bound: "requestId s < 9007199254740992"
  shows "broker_inv (sendToExtension now a u s)"
proof (cases "isConnected s")
  case False
  show ?thesis
    by (rule inv_reject_new [OF inv, where msg = "ascii ''Chrome extension not connected''"])
      (use False in \<open>simp_all add: sendToExtension_def Let_def\<close>)
next
  case True
  show ?thesis
    by (rule inv_register [OF inv, where pending = "\<lparr>p_promise = promises s, p_timestamp = now\<rparr>"])
      (use True bound in \<open>simp_all add: sendToExtension_def Let_def increment_def socketSend_def split: option.splits\<close>)
qed

lemma inv_step:
  assumes "broker_inv s" "requestId s < 9007199254740992"
  shows "broker_inv (step e s)"
proof (cases e)
  case InstallCallback
  with assms show ?thesis by (simp add: broker_inv_cong [of "s\<lparr>onConnectionChange := True\<rparr>" s])
next
  case (Start t)
  with assms show ?thesis by (simp add: broker_inv_cong [OF start_core])
next
  case (Connection ws)
  have "broker_inv (onConnection ws (s\<lparr>readyState := (readyState s)(ws := OPEN)\<rparr>)) = broker_inv (s\<lparr>readyState := (readyState s)(ws := OPEN)\<rparr>)"
    by (rule broker_inv_cong [OF onConnection_core])
  also have "\<dots> = broker_inv s"
    by (rule broker_inv_cong) simp_all
  finally show ?thesis using assms Connection by simp
next
  case (Message d)
  with assms show ?thesis by (cases d) (simp_all add: onMessage_def inv_handleExtensionMessage)
next
  case (Lost ws)
  have "broker_inv (s\<lparr>readyState := (readyState s)(ws := CLOSING)\<rparr>) = broker_inv s"
    by (rule broker_inv_cong) simp_all
  with assms Lost show ?thesis by simp
next
  case (Close ws)
  have "broker_inv (onClose ws (s\<lparr>readyState := (readyState s)(ws := CLOSED)\<rparr>)) = broker_inv (s\<lparr>readyState := (readyState s)(ws := CLOSED)\<rparr>)"
    by (rule broker_inv_cong [OF onClose_core])
  also have "\<dots> = broker_inv s"
    by (rule broker_inv_cong) simp_all
  finally show ?thesis using assms Close by simp
next
  case (SendToExtension now a u)
  with assms show ?thesis by (simp add: inv_sendToExtension)
next
  case (TimeoutFires n)
  with assms show ?thesis by (simp add: inv_timeoutFires)
qed

lemma requestId_step: "requestId (step e s) \<le> Suc (requestId s)"
  by (cases e)
    (auto simp: start_def onConnection_def notify_def onClose_def onMessage_def
      handleExtensionMessage_def sendRawToExtension_def sendToExtension_def timeoutFires_def
      increment_def Let_def split: option.splits prod.splits)

lemma inv_run:
  assumes "broker_inv s" "requestId s + length es \<le> 9007199254740992"
  shows "broker_inv (run es s)"
  using assms
proof (induction es arbitrary: s)
  case Nil
  then show ?case by simp
next
  case (Cons e es)
  have "broker_inv (step e s)"
    using Cons.prems by (intro inv_step) simp_all
  moreover have "requestId (step e s) + length es \<le> 9007199254740992"
    using requestId_step [of e s] Cons.prems(2) by simp
  ultimately show ?case by (simp add: Cons.IH)
qed

section \<open>The sweep of the native host\<close>

lemma staleKeys_Cons:
  "staleKeys now ((i, pending) # entries) =
     (if stale now pending then insert i (staleKeys now entries) else staleKeys now entries)"
  by (force simp: staleKeys_def)

lemma sweepLoop_filter:
  "fst (sweepLoop now entries (table, cleaned)) =
     filter (\<lambda>(k, v). k \<notin> staleKeys now entries) table"
proof (induction entries arbitrary: table cleaned)
  case Nil
  show ?case by (simp add: staleKeys_def)
next
  case (Cons e entries)
  obtain i pending where e: "e = (i, pending)" by (cases e)
  show ?case
  proof (cases "stale now pending")
    case True
    then have "fst (sweepLoop now (e # entries) (table, cleaned)) =
        filter (\<lambda>(k, v). k \<notin> staleKeys now entries) (mapDelete i table)"
      unfolding e using Cons.IH [of "mapDelete i table" "cleaned + 1"]
      by (simp add: stale_def)
    also have "\<dots> = filter (\<lambda>(k, v). k \<notin> staleKeys now (e # entries)) table"
      unfolding e using True
      by (auto simp: mapDelete_def staleKeys_Cons intro!: filter_cong)
    finally show ?thesis .
  next
    case False
    then show ?thesis
      unfolding e using Cons.IH [of table cleaned]
      by (simp add: stale_def staleKeys_Cons)
  qed
qed

lemma sweep_removes_stale:
  assumes "distinct (map fst (nh_pendingRequests s))"
  shows "sweep now s =
           s\<lparr>nh_pendingRequests := filter (\<lambda>(k, v). \<not> stale now v) (nh_pendingRequests s)\<rparr>"
proof -
  let ?t = "nh_pendingRequests s"
  have "filter (\<lambda>(k, v). k \<notin> staleKeys now ?t) ?t
        = filter (\<lambda>(k, v). \<not> stale now v) ?t"
  proof (rule filter_cong [OF refl])
    fix x assume x: "x \<in> set ?t"
    obtain k v where kv: "x = (k, v)" by (cases x)
    have "k \<in> staleKeys now ?t \<longleftrightarrow> stale now v"
    proof
      assume "k \<in> staleKeys now ?t"
      then obtain v' where v': "(k, v') \<in> set ?t" "stale now v'" by (auto simp: staleKeys_def)
      from assms v'(1) x have "v' = v" unfolding kv by (rule eq_key_imp_eq_value)
      with v' show "stale now v" by simp
    next
      assume "stale now v"
      with x kv show "k \<in> staleKeys now ?t" by (force simp: staleKeys_def)
    qed
    then show "(case x of (k, v) \<Rightarrow> k \<notin> staleKeys now ?t)
        = (case x of (k, v) \<Rightarrow> \<not> stale now v)"
      by (simp add: kv)
  qed
  then show ?thesis
    using sweepLoop_filter [of now ?t ?t 0]
    by (cases "sweepLoop now ?t (?t, 0)") (simp add: sweep_def)
qed

text \<open>The keys of the host's table stay distinct, as those of a \<open>Map\<close> are.\<close>

lemma fst_mapSet: "fst \<circ> (\<lambda>(k', v'). if k' = k then (k, v) else (k', v')) = fst"
  by (auto simp: fun_eq_iff)

lemma distinct_mapSet:
  "distinct (map fst m) \<Longrightarrow> distinct (map fst (mapSet k v m))"
  by (auto simp: mapSet_def fst_mapSet)

lemma distinct_mapDelete:
  "distinct (map fst m) \<Longrightarrow> distinct (map fst (mapDelete k m))"
  by (simp add: mapDelete_def distinct_map_filter)

lemma distinct_host_steps:
  assumes "distinct (map fst (nh_pendingRequests h))"
  shows "distinct (map fst (nh_pendingRequests (handleStreamDeckMessage ws m now h)))"
    and "distinct (map fst (nh_pendingRequests (handleChromeMessage m h)))"
    and "distinct (map fst (nh_pendingRequests (sweep now h)))"
proof -
  show "distinct (map fst (nh_pendingRequests (handleStreamDeckMessage ws m now h)))"
    using assms by (simp add: handleStreamDeckMessage_def Let_def distinct_mapSet)
  show "distinct (map fst (nh_pendingRequests (handleChromeMessage m h)))"
    using assms
    by (auto simp: handleChromeMessage_def Let_def distinct_mapDelete split: option.splits)
  show "distinct (map fst (nh_pendingRequests (sweep now h)))"
    using assms by (simp add: sweep_removes_stale distinct_map_filter)
qed

section \<open>Claims about the broker of the plugin\<close>

lemmas server_defs = newServer_def start_def onConnection_def notify_def onClose_def onMessage_def
  handleExtensionMessage_def sendRawToExtension_def socketSend_def sendToExtension_def
  timeoutFires_def increment_def isConnected_def emptyEnvelope_def Let_def

lemma timeoutFires_rejects:
  assumes "n < length (timers s)" "timers s ! n = (i, q)" "pendingRequests s i \<noteq> None"
  shows "pendingRequests (timeoutFires n s) i = None"
    and "effects (timeoutFires n s) = effects s @ [Reject q (ascii ''Request timeout'')]"
  using assms by (simp_all add: timeoutFires_def)

lemma close_core:
  "pendingRequests (step (Close ws) s) = pendingRequests s"
  "requestId (step (Close ws) s) = requestId s"
  "timers (step (Close ws) s) = timers s"
  "promises (step (Close ws) s) = promises s"
  "filter (settles p) (effects (step (Close ws) s)) = filter (settles p) (effects s)"
  by (simp_all add: onClose_core)

text \<open>
  Claim C1: every pending request is settled exactly once. In every state the server
  reaches from its construction (by fewer than \<open>2^53\<close> events, so that the request
  counter is exact), each promise created so far has been resolved or rejected once in
  all, unless it still waits in the table, and then never. While a request waits, its
  timer is outstanding. A response with the id of a waiting request removes the entry and
  settles its promise, rejecting when the response has a non-empty \<open>error\<close> and
  resolving with the response otherwise. The timer of a request removes the entry and
  rejects its promise with \<open>Request timeout\<close> when the entry is still there, and only
  leaves the timer list when it is not. A response whose id has no entry changes nothing.
\<close>

theorem pending_request_settled_exactly_once:
  fixes es :: "event list"
  defines "s \<equiv> run es newServer"
  assumes "length es < 9007199254740992"
  shows "(p < promises s \<longrightarrow> settled_count p s = (if waiting p s then 0 else 1))
    \<and> (pendingRequests s i = Some pending \<longrightarrow>
          settled_count (p_promise pending) s = 0
          \<and> (i, p_promise pending) \<in> set (timers s)
          \<and> (e_action m \<noteq> Some (ascii ''ping'') \<and> e_id m = Some i \<longrightarrow>
               handleExtensionMessage m s =
                 s\<lparr>pendingRequests := (pendingRequests s)(i := None),
                   effects := effects s @
                     [if e_error m = None \<or> e_error m = Some []
                      then Resolve (p_promise pending) m
                      else Reject (p_promise pending) (orEmpty (e_error m))]\<rparr>))
    \<and> (n < length (timers s) \<and> timers s ! n = (j, q) \<longrightarrow>
          (pendingRequests s j = None \<longrightarrow>
             timeoutFires n s = s\<lparr>timers := take n (timers s) @ drop (Suc n) (timers s)\<rparr>)
          \<and> (\<forall>entry. pendingRequests s j = Some entry \<longrightarrow>
                p_promise entry = q
                \<and> timeoutFires n s =
                    s\<lparr>timers := take n (timers s) @ drop (Suc n) (timers s),
                      pendingRequests := (pendingRequests s)(j := None),
                      effects := effects s @ [Reject q (ascii ''Request timeout'')]\<rparr>))
    \<and> (e_action late \<noteq> Some (ascii ''ping'')
          \<and> (\<forall>k. e_id late = Some k \<longrightarrow> pendingRequests s k = None)
        \<longrightarrow> handleExtensionMessage late s = s)"
proof -
  have inv: "broker_inv s"
    unfolding s_def using assms(2) by (intro inv_run broker_inv_new) (simp add: newServer_def)
  have once: "settled_count p s = (if waiting p s then 0 else 1)" if "p < promises s"
    using inv_countD [OF inv, of p] that by simp
  have entry: "settled_count (p_promise pending) s = 0 \<and> (i, p_promise pending) \<in> set (timers s)"
    if "pendingRequests s i = Some pending"
  proof -
    from that have "waiting (p_promise pending) s" by (auto simp: waiting_def)
    with inv_countD [OF inv, of "p_promise pending"] inv_tableD(3) [OF inv that]
    show ?thesis by simp
  qed
  have response: "handleExtensionMessage m s =
                 s\<lparr>pendingRequests := (pendingRequests s)(i := None),
                   effects := effects s @
                     [if e_error m = None \<or> e_error m = Some []
                      then Resolve (p_promise pending) m
                      else Reject (p_promise pending) (orEmpty (e_error m))]\<rparr>"
    if "pendingRequests s i = Some pending" "e_action m \<noteq> Some (ascii ''ping'')" "e_id m = Some i"
    using that by (cases "e_error m") (simp_all add: handleExtensionMessage_def Let_def orEmpty_def)
  have timer_gone: "timeoutFires n s = s\<lparr>timers := take n (timers s) @ drop (Suc n) (timers s)\<rparr>"
    if "n < length (timers s)" "timers s ! n = (j, q)" "pendingRequests s j = None"
    using that by (simp add: timeoutFires_def)
  have timer_hit: "p_promise entry = q
                \<and> timeoutFires n s =
                    s\<lparr>timers := take n (timers s) @ drop (Suc n) (timers s),
                      pendingRequests := (pendingRequests s)(j := None),
                      effects := effects s @ [Reject q (ascii ''Request timeout'')]\<rparr>"
    if "n < length (timers s)" "timers s ! n = (j, q)" "pendingRequests s j = Some entry" for entry
  proof -
    from that(1,2) have "(j, q) \<in> set (timers s)" by (metis nth_mem)
    from inv_timerD(3) [OF inv this that(3)] that show ?thesis
      by (simp add: timeoutFires_def)
  qed
  have dropped: "handleExtensionMessage late s = s"
    if "e_action late \<noteq> Some (ascii ''ping'')" "\<forall>k. e_id late = Some k \<longrightarrow> pendingRequests s k = None"
    using that by (cases "e_id late") (simp_all add: handleExtensionMessage_def)
  from once entry response timer_gone timer_hit dropped show ?thesis by blast
qed

theorem pending_request_settled_exactly_once_witness:
  "settled_count 0
     (run [InstallCallback, Start False, Connection 1,
           SendToExtension 1000 (ascii ''switchToURL'') (Some (ascii ''github.com'')),
           Message (Some (emptyEnvelope\<lparr>e_id := Some 1,
                            e_result := Some (ResultString (ascii ''ok''))\<rparr>)),
           TimeoutFires 0,
           Message (Some (emptyEnvelope\<lparr>e_id := Some 1,
                            e_result := Some (ResultString (ascii ''ok''))\<rparr>))]
        newServer) = 1
   \<and> settled_count 0
       (run [InstallCallback, Start False, Connection 1,
             SendToExtension 1000 (ascii ''switchToURL'') (Some (ascii ''github.com''))]
          newServer) = 0
   \<and> pendingRequests
       (handleExtensionMessage
          (emptyEnvelope\<lparr>e_id := Some 1, e_result := Some (ResultString (ascii ''ok''))\<rparr>)
          (run [InstallCallback, Start False, Connection 1,
                SendToExtension 1000 (ascii ''switchToURL'') (Some (ascii ''github.com''))]
             newServer)) 1 = None"
proof -
  let ?reply = "emptyEnvelope\<lparr>e_id := Some 1, e_result := Some (ResultString (ascii ''ok''))\<rparr>"
  let ?sent = "[InstallCallback, Start False, Connection 1,
                SendToExtension 1000 (ascii ''switchToURL'') (Some (ascii ''github.com''))]"
  let ?all = "?sent @ [Message (Some ?reply), TimeoutFires 0, Message (Some ?reply)]"
  have created: "0 < promises (run ?all newServer)"
    by (simp add: server_defs)
  have gone: "\<not> waiting 0 (run ?all newServer)"
    by (simp add: server_defs waiting_def)
  have entry: "pendingRequests (run ?sent newServer) 1 = Some \<lparr>p_promise = 0, p_timestamp = 1000\<rparr>"
    by (simp add: server_defs)
  have reply: "e_action ?reply \<noteq> Some (ascii ''ping'')" "e_id ?reply = Some 1"
    by (simp_all add: emptyEnvelope_def)
  have "settled_count 0 (run ?all newServer) = 1"
    using pending_request_settled_exactly_once [of ?all 0] created gone by simp
  moreover have "settled_count 0 (run ?sent newServer) = 0
      \<and> pendingRequests (handleExtensionMessage ?reply (run ?sent newServer)) 1 = None"
    using pending_request_settled_exactly_once
      [of ?sent _ 1 "\<lparr>p_promise = 0, p_timestamp = 1000\<rparr>" ?reply] entry reply
    by simp
  ultimately show ?thesis by simp
qed

text \<open>
  Claim C2: when the extension is not connected (no socket, or a socket that is not
  \<open>OPEN\<close>), \<open>sendToExtension\<close> only creates its promise and rejects it at once with
  \<open>Chrome extension not connected\<close>: the table, the request counter and the timers are
  as before, and nothing is sent.
\<close>

theorem send_fails_when_not_connected:
  assumes "\<not> isConnected s"
  shows "sendToExtension now action url s =
           s\<lparr>promises := promises s + 1,
             effects := effects s @ [Reject (promises s) (ascii ''Chrome extension not connected'')]\<rparr>
         \<and> pendingRequests (sendToExtension now action url s) = pendingRequests s
         \<and> requestId (sendToExtension now action url s) = requestId s
         \<and> timers (sendToExtension now action url s) = timers s"
  using assms by (simp add: sendToExtension_def Let_def)

theorem send_fails_when_not_connected_witness:
  "\<not> isConnected (run [Start False, Connection 1, Lost 1] newServer)
   \<and> effects (sendToExtension 5 (ascii ''switchToURL'') (Some (ascii ''github.com''))
        (run [Start False, Connection 1, Lost 1] newServer))
       = [Reject 0 (ascii ''Chrome extension not connected'')]
   \<and> requestId (sendToExtension 5 (ascii ''switchToURL'') (Some (ascii ''github.com''))
        (run [Start False, Connection 1, Lost 1] newServer)) = 0
   \<and> pendingRequests (sendToExtension 5 (ascii ''switchToURL'') (Some (ascii ''github.com''))
        (run [Start False, Connection 1, Lost 1] newServer)) = Map.empty"
proof -
  let ?s = "run [Start False, Connection 1, Lost 1] newServer"
  have down: "\<not> isConnected ?s"
    by (simp add: server_defs)
  have before: "effects ?s = []" "requestId ?s = 0" "pendingRequests ?s = Map.empty" "promises ?s = 0"
    by (simp_all add: server_defs)
  let ?t = "sendToExtension 5 (ascii ''switchToURL'') (Some (ascii ''github.com'')) ?s"
  note r = send_fails_when_not_connected [OF down, of 5 "ascii ''switchToURL''" "Some (ascii ''github.com'')"]
  from r have e: "effects ?t = effects ?s @ [Reject (promises ?s) (ascii ''Chrome extension not connected'')]"
    by (simp del: run.simps)
  from r have "requestId ?t = requestId ?s" "pendingRequests ?t = pendingRequests ?s"
    by blast+
  with e down show ?thesis
    by (simp only: before append_Nil simp_thms)
qed

text \<open>
  Claim C10: \<open>start\<close> on a server that has been started changes nothing, whether or not
  constructing a listening server would succeed.
\<close>

theorem start_idempotent:
  assumes "started s"
  shows "start constructor_throws s = s"
  using assms by (simp add: start_def)

theorem start_idempotent_witness:
  "started (run [InstallCallback, Start False, Connection 1,
                 SendToExtension 1000 (ascii ''switchToURL'') (Some (ascii ''github.com''))]
              newServer)
   \<and> start False
       (run [InstallCallback, Start False, Connection 1,
             SendToExtension 1000 (ascii ''switchToURL'') (Some (ascii ''github.com''))]
          newServer)
     = run [InstallCallback, Start False, Connection 1,
            SendToExtension 1000 (ascii ''switchToURL'') (Some (ascii ''github.com''))]
         newServer"
proof -
  have up: "started (run [InstallCallback, Start False, Connection 1,
                 SendToExtension 1000 (ascii ''switchToURL'') (Some (ascii ''github.com''))]
              newServer)"
    by (simp add: server_defs)
  from start_idempotent [OF up, of False] up show ?thesis by simp
qed

text \<open>
  Claim C3, as the specification states it: when the connection closes, every pending
  request sent on it fails at once. The \<open>close\<close> handler does not touch the table: after
  a request was sent on socket 1 and socket 1 closed, the request is still in the table
  and its promise has not been settled.
\<close>

theorem close_leaves_requests_pending:
  "pendingRequests
     (step (Close 1)
        (run [InstallCallback, Start False, Connection 1,
              SendToExtension 1000 (ascii ''switchToURL'') (Some (ascii ''github.com''))]
           newServer)) 1
     = Some \<lparr>p_promise = 0, p_timestamp = 1000\<rparr>
   \<and> settled_count 0
       (step (Close 1)
          (run [InstallCallback, Start False, Connection 1,
                SendToExtension 1000 (ascii ''switchToURL'') (Some (ascii ''github.com''))]
             newServer)) = 0
   \<and> extensionSocket
       (step (Close 1)
          (run [InstallCallback, Start False, Connection 1,
                SendToExtension 1000 (ascii ''switchToURL'') (Some (ascii ''github.com''))]
             newServer)) = None"
  by (simp add: server_defs settled_count_def)

text \<open>
  Claim C3, amended: when a socket closes, the handler clears \<open>extensionSocket\<close> if it is
  that socket and then calls the connection callback, if one is installed; the
  table, the request counter and the timers are unchanged and no promise is settled. A
  request still pending at that time is rejected later, with \<open>Request timeout\<close>, when its
  own timer fires.
\<close>

theorem close_only_clears_socket:
  "pendingRequests (step (Close ws) s) = pendingRequests s
   \<and> requestId (step (Close ws) s) = requestId s
   \<and> timers (step (Close ws) s) = timers s
   \<and> settled_count p (step (Close ws) s) = settled_count p s
   \<and> extensionSocket (step (Close ws) s)
       = (if extensionSocket s = Some ws then None else extensionSocket s)
   \<and> effects (step (Close ws) s)
       = effects s @ (if extensionSocket s = Some ws \<and> onConnectionChange s
                      then [ConnectionChange False] else [])
   \<and> (n < length (timers s) \<and> timers s ! n = (i, q) \<and> pendingRequests s i \<noteq> None \<longrightarrow>
        pendingRequests (timeoutFires n (step (Close ws) s)) i = None
        \<and> effects (timeoutFires n (step (Close ws) s))
            = effects (step (Close ws) s) @ [Reject q (ascii ''Request timeout'')])"
proof -
  have later: "pendingRequests (timeoutFires n (step (Close ws) s)) i = None
        \<and> effects (timeoutFires n (step (Close ws) s))
            = effects (step (Close ws) s) @ [Reject q (ascii ''Request timeout'')]"
    if "n < length (timers s)" "timers s ! n = (i, q)" "pendingRequests s i \<noteq> None"
    using timeoutFires_rejects [of n "step (Close ws) s" i q] that
    by (simp only: close_core simp_thms)
  have "settled_count p (step (Close ws) s) = settled_count p s"
    by (simp only: settled_count_def close_core)
  moreover have "extensionSocket (step (Close ws) s)
       = (if extensionSocket s = Some ws then None else extensionSocket s)"
    "effects (step (Close ws) s)
       = effects s @ (if extensionSocket s = Some ws \<and> onConnectionChange s
                      then [ConnectionChange False] else [])"
    by (simp_all add: onClose_def notify_def)
  ultimately show ?thesis
    using later by (simp only: close_core simp_thms) blast
qed

theorem close_only_clears_socket_witness:
  "effects (timeoutFires 0
     (step (Close 1)
        (run [InstallCallback, Start False, Connection 1,
              SendToExtension 1000 (ascii ''switchToURL'') (Some (ascii ''github.com''))]
           newServer)))
   = [ConnectionChange True,
      SocketSend 1 (emptyEnvelope\<lparr>e_id := Some 1, e_action := Some (ascii ''switchToURL''),
                      e_url := Some (ascii ''github.com'')\<rparr>),
      ConnectionChange False,
      Reject 0 (ascii ''Request timeout'')]"
proof -
  let ?s = "run [InstallCallback, Start False, Connection 1,
              SendToExtension 1000 (ascii ''switchToURL'') (Some (ascii ''github.com''))]
           newServer"
  have before: "0 < length (timers ?s)" "timers ?s ! 0 = (1, 0)" "pendingRequests ?s 1 \<noteq> None"
    "extensionSocket ?s = Some 1" "onConnectionChange ?s"
    "effects ?s = [ConnectionChange True,
      SocketSend 1 (emptyEnvelope\<lparr>e_id := Some 1, e_action := Some (ascii ''switchToURL''),
                      e_url := Some (ascii ''github.com'')\<rparr>)]"
    by (simp_all add: server_defs)
  from close_only_clears_socket [of 1 ?s _ 0 1 0] before show ?thesis
    by simp
qed

section \<open>Claims about the deadline sweep\<close>

lemmas host_defs = newHost_def handleStreamDeckMessage_def mapSet_def mapDelete_def sweep_def
  increment_def emptyEnvelope_def Let_def

text \<open>
  Claim C5, as the specification states it: the periodic sweep removes every request
  whose deadline has passed and resolves its continuation with a timeout error. The only
  periodic sweep is the one of the native host, and it deletes without telling anybody: a
  request forwarded at time 0 is gone after the sweep at time 30001, and nothing was sent
  to the socket it came from.
\<close>

theorem sweep_notifies_nobody:
  "nh_pendingRequests
     (handleStreamDeckMessage 1
        (emptyEnvelope\<lparr>e_id := Some 7, e_action := Some (ascii ''switchToURL''),
                       e_url := Some (ascii ''github.com'')\<rparr>) 0 newHost)
     = [(1, \<lparr>nh_ws = 1, nh_originalId = Some 7, nh_timestamp = 0\<rparr>)]
   \<and> nh_pendingRequests
       (sweep 30001
          (handleStreamDeckMessage 1
             (emptyEnvelope\<lparr>e_id := Some 7, e_action := Some (ascii ''switchToURL''),
                            e_url := Some (ascii ''github.com'')\<rparr>) 0 newHost)) = []
   \<and> nh_sent
       (sweep 30001
          (handleStreamDeckMessage 1
             (emptyEnvelope\<lparr>e_id := Some 7, e_action := Some (ascii ''switchToURL''),
                            e_url := Some (ascii ''github.com'')\<rparr>) 0 newHost)) = []"
  by (simp add: host_defs)

text \<open>
  Claim C5, amended: the sweep of the native host removes exactly the entries forwarded
  more than 30000 ms before it runs and keeps the others in order; it writes nothing to
  any socket nor to the browser. The caller of a request learns of a timeout from the
  plugin only, where the timer of the request, 10 seconds after it was sent, removes the
  entry if it is still pending and rejects its promise with \<open>Request timeout\<close>.
\<close>

theorem sweep_removes_stale_silently:
  assumes "distinct (map fst (nh_pendingRequests h))"
  shows "nh_pendingRequests (sweep now h)
           = filter (\<lambda>(i, pending). \<not> 30000 < now - nh_timestamp pending) (nh_pendingRequests h)
         \<and> nh_sent (sweep now h) = nh_sent h
         \<and> nh_stdout (sweep now h) = nh_stdout h
         \<and> nh_requestId (sweep now h) = nh_requestId h
         \<and> (n < length (timers s) \<and> timers s ! n = (i, q) \<and> pendingRequests s i \<noteq> None \<longrightarrow>
              pendingRequests (timeoutFires n s) i = None
              \<and> effects (timeoutFires n s) = effects s @ [Reject q (ascii ''Request timeout'')])"
proof -
  have "sweep now h
      = h\<lparr>nh_pendingRequests :=
            filter (\<lambda>(i, pending). \<not> 30000 < now - nh_timestamp pending) (nh_pendingRequests h)\<rparr>"
    using sweep_removes_stale [OF assms, of now] by (simp add: stale_def)
  then have "nh_pendingRequests (sweep now h)
           = filter (\<lambda>(i, pending). \<not> 30000 < now - nh_timestamp pending) (nh_pendingRequests h)"
    "nh_sent (sweep now h) = nh_sent h" "nh_stdout (sweep now h) = nh_stdout h"
    "nh_requestId (sweep now h) = nh_requestId h"
    by simp_all
  then show ?thesis
    using timeoutFires_rejects [of n s i q] by blast
qed

theorem sweep_removes_stale_silently_witness:
  "nh_pendingRequests
     (sweep 40000
        (handleStreamDeckMessage 1 (emptyEnvelope\<lparr>e_id := Some 8\<rparr>) 20000
           (handleStreamDeckMessage 1 (emptyEnvelope\<lparr>e_id := Some 7\<rparr>) 0 newHost)))
   = [(2, \<lparr>nh_ws = 1, nh_originalId = Some 8, nh_timestamp = 20000\<rparr>)]
   \<and> nh_sent
     (sweep 40000
        (handleStreamDeckMessage 1 (emptyEnvelope\<lparr>e_id := Some 8\<rparr>) 20000
           (handleStreamDeckMessage 1 (emptyEnvelope\<lparr>e_id := Some 7\<rparr>) 0 newHost))) = []"
proof -
  let ?h = "handleStreamDeckMessage 1 (emptyEnvelope\<lparr>e_id := Some 8\<rparr>) 20000
           (handleStreamDeckMessage 1 (emptyEnvelope\<lparr>e_id := Some 7\<rparr>) 0 newHost)"
  have table: "nh_pendingRequests ?h
      = [(1, \<lparr>nh_ws = 1, nh_originalId = Some 7, nh_timestamp = 0\<rparr>),
         (2, \<lparr>nh_ws = 1, nh_originalId = Some 8, nh_timestamp = 20000\<rparr>)]"
    and quiet: "nh_sent ?h = []"
    by (simp_all add: newHost_def handleStreamDeckMessage_def mapSet_def increment_def
        emptyEnvelope_def Let_def)
  have keys: "distinct (map fst (nh_pendingRequests ?h))"
    by (simp only: table) simp
  from sweep_removes_stale_silently [OF keys, of 40000]
  have "nh_pendingRequests (sweep 40000 ?h)
           = filter (\<lambda>(i, pending). \<not> 30000 < 40000 - nh_timestamp pending) (nh_pendingRequests ?h)"
    "nh_sent (sweep 40000 ?h) = nh_sent ?h"
    by blast+
  then show ?thesis
    by (simp only: table quiet) simp
qed

end
